theory Spec2Isabelle
  imports Main "HOL-Library.Sublist"
begin

section \<open>Python string operations used by the checker\<close>

text \<open>
  A Python \<open>str\<close> is modelled as a \<open>string\<close>: a list of characters, each a code point
  below 256.  The predicates below are the ones of CPython on that range.
\<close>

definition is_space :: "char \<Rightarrow> bool" where
  \<comment> \<open>\<open>str.isspace\<close> on one character: TAB, LF, VT, FF, CR, FS, GS, RS, US, space, NEL, NBSP.\<close>
  "is_space c =
     (let n = (of_char c :: nat)
      in (9 \<le> n \<and> n \<le> 13) \<or> (28 \<le> n \<and> n \<le> 32) \<or> n = 133 \<or> n = 160)"

definition strip :: "string \<Rightarrow> string" where
  \<comment> \<open>\<open>s.strip()\<close>: whitespace removed at both ends.\<close>
  "strip s = rev (dropWhile is_space (rev (dropWhile is_space s)))"

definition lower_char :: "char \<Rightarrow> char" where
  \<comment> \<open>\<open>c.lower()\<close>: A..Z and the Latin-1 capitals (all of 192..222 but the sign 215).\<close>
  "lower_char c =
     (let n = (of_char c :: nat)
      in if (65 \<le> n \<and> n \<le> 90) \<or> (192 \<le> n \<and> n \<le> 222 \<and> n \<noteq> 215)
         then char_of (n + 32) else c)"

definition lower :: "string \<Rightarrow> string" where
  "lower s = map lower_char s"

definition startswith :: "string \<Rightarrow> string \<Rightarrow> bool" where
  \<comment> \<open>\<open>s.startswith(p)\<close>\<close>
  "startswith s p = prefix p s"

fun find_sep :: "string \<Rightarrow> string \<Rightarrow> (string \<times> string) option" where
  \<comment> \<open>the text before and after the leftmost occurrence of \<open>sep\<close>, as \<open>str.partition\<close>
      finds it; \<open>None\<close> when \<open>sep\<close> does not occur\<close>
  "find_sep sep [] = (if sep = [] then Some ([], []) else None)"
| "find_sep sep (c # cs) =
     (if prefix sep (c # cs) then Some ([], drop (length sep) (c # cs))
      else (case find_sep sep cs of
              None \<Rightarrow> None
            | Some (a, b) \<Rightarrow> Some (c # a, b)))"

definition contains :: "string \<Rightarrow> string \<Rightarrow> bool" where
  \<comment> \<open>\<open>sep in s\<close>\<close>
  "contains sep s = (find_sep sep s \<noteq> None)"

lemma find_sep_shorter:
  "find_sep sep s = Some (a, b) \<Longrightarrow> sep \<noteq> [] \<Longrightarrow> length b < length s"
proof (induction s arbitrary: a)
  case Nil
  then show ?case by simp
next
  case (Cons c cs)
  show ?case
  proof (cases "prefix sep (c # cs)")
    case True
    with Cons.prems show ?thesis by (cases sep) auto
  next
    case False
    with Cons.prems obtain a' where "find_sep sep cs = Some (a', b)"
      by (auto split: option.splits)
    with Cons.IH Cons.prems(2) have "length b < length cs" by blast
    then show ?thesis by simp
  qed
qed

function split_all :: "string \<Rightarrow> string \<Rightarrow> string list" where
  \<comment> \<open>\<open>s.split(sep)\<close> for a non-empty \<open>sep\<close>, the only kind the checker passes
      (Python rejects an empty one)\<close>
  "split_all sep s =
     (if sep = [] then [s]
      else (case find_sep sep s of
              None \<Rightarrow> [s]
            | Some (a, b) \<Rightarrow> a # split_all sep b))"
  by pat_completeness auto
termination
  by (relation "measure (\<lambda>(sep, s). length s)") (auto dest: find_sep_shorter)

definition split_once :: "string \<Rightarrow> string \<Rightarrow> string list" where
  \<comment> \<open>\<open>s.split(sep, 1)\<close>\<close>
  "split_once sep s =
     (case find_sep sep s of None \<Rightarrow> [s] | Some (a, b) \<Rightarrow> [a, b])"

definition is_linebreak :: "char \<Rightarrow> bool" where
  \<comment> \<open>the line boundaries of \<open>str.splitlines\<close>: LF, VT, FF, CR, FS, GS, RS, NEL\<close>
  "is_linebreak c =
     (let n = (of_char c :: nat)
      in (10 \<le> n \<and> n \<le> 13) \<or> (28 \<le> n \<and> n \<le> 30) \<or> n = 133)"

function splitlines :: "string \<Rightarrow> string list" where
  \<comment> \<open>\<open>s.splitlines()\<close>: CR LF counts as one boundary, and a boundary at the very end
      opens no further line\<close>
  "splitlines s =
     (if s = [] then []
      else (case dropWhile (\<lambda>c. \<not> is_linebreak c) s of
              [] \<Rightarrow> [s]
            | c # r \<Rightarrow>
                takeWhile (\<lambda>c. \<not> is_linebreak c) s #
                splitlines (if c = CHR 0x0D \<and> take 1 r = [CHR 0x0A] then drop 1 r else r)))"
  by pat_completeness auto
termination
proof (relation "measure length")
  show "wf (measure length)" by simp
next
  fix s :: string and c r
  assume "s \<noteq> []" and d: "dropWhile (\<lambda>c. \<not> is_linebreak c) s = c # r"
  have "length (dropWhile (\<lambda>c. \<not> is_linebreak c) s) \<le> length s"
    by (rule length_dropWhile_le)
  with d have "length r < length s" by simp
  moreover have "length (drop 1 r) \<le> length r" by simp
  ultimately show
    "(if c = CHR 0x0D \<and> take 1 r = [CHR 0x0A] then drop 1 r else r, s) \<in> measure length"
    by auto
qed


section \<open>Dictionaries in insertion order\<close>

text \<open>
  A Python \<open>dict\<close> keeps its keys in the order of their first insertion, and both the
  JSON and the text report follow that order.  A dictionary is therefore a list of
  key-value pairs: \<open>d[k] = v\<close> replaces the value of a key already there, in place, and
  puts a new key at the end.
\<close>

fun dict_set :: "('k \<times> 'v) list \<Rightarrow> 'k \<Rightarrow> 'v \<Rightarrow> ('k \<times> 'v) list" where
  "dict_set [] k v = [(k, v)]"
| "dict_set ((k', v') # d) k v =
     (if k' = k then (k, v) # d else (k', v') # dict_set d k v)"

definition dict_get :: "('k \<times> 'v) list \<Rightarrow> 'k \<Rightarrow> 'v option" where
  \<comment> \<open>\<open>d[k]\<close>, with \<open>None\<close> where Python raises \<open>KeyError\<close>\<close>
  "dict_get d k = map_of d k"

definition keys :: "('k \<times> 'v) list \<Rightarrow> 'k list" where
  "keys d = map fst d"

section \<open>The checker\<close>

text \<open>A dependency record, and \<open>self.dependencies\<close>: package name to record.\<close>

type_synonym info = "(string \<times> string) list"
type_synonym deps = "(string \<times> info) list"

text \<open>
  The exceptions that can travel through the checker.  \<open>SystemExit\<close> is what
  \<open>sys.exit\<close> raises; it is no \<open>Exception\<close>, so \<open>except Exception\<close> lets it pass.
\<close>

datatype exn = CalledProcessError | OSError | ValueError | IndexError | KeyError
  | SystemExit nat

text \<open>
  What \<open>subprocess.run(..., capture_output=True, text=True, check=True)\<close> does: the
  command exits with status 0 and its standard output is returned as text, or it exits
  with another status (\<open>CalledProcessError\<close>), or it cannot be started (\<open>OSError\<close>).
\<close>

datatype proc = Completed string | NonZeroExit | CannotLaunch

fun execute_command :: "proc \<Rightarrow> exn + string" where
  "execute_command (Completed stdout) = Inr (strip stdout)"
| "execute_command NonZeroExit = Inl CalledProcessError"
| "execute_command CannotLaunch = Inl OSError"

text \<open>
  The loop of \<open>_get_dependencies\<close> over the lines of the output.  Unpacking
  \<open>line.split('==')\<close> into two names raises \<open>ValueError\<close> unless the list has
  exactly two elements.
\<close>

fun deps_loop :: "string list \<Rightarrow> deps \<Rightarrow> exn + deps" where
  "deps_loop [] d = Inr d"
| "deps_loop (line # ls) d =
     (if contains ''=='' line then
        (case split_all ''=='' line of
           [package_name, package_version] \<Rightarrow>
             deps_loop ls (dict_set d package_name [(''version'', package_version)])
         | _ \<Rightarrow> Inl ValueError)
      else deps_loop ls d)"

definition get_dependencies :: "proc \<Rightarrow> deps \<Rightarrow> exn + deps" where
  \<comment> \<open>the handler catches \<open>CalledProcessError\<close> only, and exits with status 1\<close>
  "get_dependencies freeze d =
     (case execute_command freeze of
        Inl CalledProcessError \<Rightarrow> Inl (SystemExit 1)
      | Inl e \<Rightarrow> Inl e
      | Inr output \<Rightarrow> deps_loop (splitlines output) d)"

definition index1 :: "string list \<Rightarrow> exn + string" where
  \<comment> \<open>\<open>parts[1]\<close>\<close>
  "index1 parts = (case parts of _ # x # _ \<Rightarrow> Inr x | _ \<Rightarrow> Inl IndexError)"

definition set_field :: "deps \<Rightarrow> string \<Rightarrow> string \<Rightarrow> string \<Rightarrow> exn + deps" where
  \<comment> \<open>\<open>self.dependencies[package_name][field] = value\<close>\<close>
  "set_field d package_name field val =
     (case dict_get d package_name of
        None \<Rightarrow> Inl KeyError
      | Some info \<Rightarrow> Inr (dict_set d package_name (dict_set info field val)))"

text \<open>
  The loop of \<open>_get_license_info\<close>.  It returns the dictionary as the loop left it,
  together with \<open>license_info\<close> or with the exception that ended the loop: what the loop
  stored before an exception stays stored.
\<close>

fun license_loop :: "string list \<Rightarrow> string \<Rightarrow> string \<Rightarrow> deps \<Rightarrow> deps \<times> (exn + string)" where
  "license_loop [] package_name license_info d = (d, Inr license_info)"
| "license_loop (line # ls) package_name license_info d =
     (if startswith (lower line) ''license:'' then
        (case index1 (split_once '':'' line) of
           Inl e \<Rightarrow> (d, Inl e)
         | Inr x \<Rightarrow> (d, Inr (strip x)))
      else if startswith (lower line) ''home-page:'' then
        (case index1 (split_once '':'' line) of
           Inl e \<Rightarrow> (d, Inl e)
         | Inr x \<Rightarrow>
             (case set_field d package_name ''homepage'' (strip x) of
                Inl e \<Rightarrow> (d, Inl e)
              | Inr d' \<Rightarrow> license_loop ls package_name license_info d'))
      else license_loop ls package_name license_info d)"

definition get_license_info :: "(string \<Rightarrow> proc) \<Rightarrow> string \<Rightarrow> deps \<Rightarrow> exn + deps" where
  \<comment> \<open>both handlers store \<open>"UNKNOWN"\<close>; an exception raised inside a handler leaves the
      function\<close>
  "get_license_info pip_show package_name d =
     (case execute_command (pip_show package_name) of
        Inl e \<Rightarrow> set_field d package_name ''license'' ''UNKNOWN''
      | Inr output \<Rightarrow>
          (case license_loop (splitlines output) package_name ''UNKNOWN'' d of
             (d', Inl e) \<Rightarrow> set_field d' package_name ''license'' ''UNKNOWN''
           | (d', Inr license_info) \<Rightarrow>
               (case set_field d' package_name ''license'' license_info of
                  Inl e \<Rightarrow> set_field d' package_name ''license'' ''UNKNOWN''
                | Inr d'' \<Rightarrow> Inr d'')))"

fun resolve_all :: "(string \<Rightarrow> proc) \<Rightarrow> string list \<Rightarrow> deps \<Rightarrow> exn + deps" where
  \<comment> \<open>\<open>for package_name in self.dependencies: self._get_license_info(package_name)\<close>\<close>
  "resolve_all pip_show [] d = Inr d"
| "resolve_all pip_show (package_name # ps) d =
     (case get_license_info pip_show package_name d of
        Inl e \<Rightarrow> Inl e
      | Inr d' \<Rightarrow> resolve_all pip_show ps d')"

definition scan_licenses :: "proc \<Rightarrow> (string \<Rightarrow> proc) \<Rightarrow> exn + deps" where
  \<comment> \<open>\<open>self.dependencies\<close> is empty when the scan starts\<close>
  "scan_licenses freeze pip_show =
     (case get_dependencies freeze [] of
        Inl e \<Rightarrow> Inl e
      | Inr d \<Rightarrow> resolve_all pip_show (keys d) d)"


section \<open>The report\<close>

text \<open>
  \<open>json.dumps(obj, indent=4)\<close> on dictionaries whose keys and leaves are strings.
  The string encoder is the one of \<open>ensure_ascii=True\<close>: a backslash and a double quote
  are escaped with a backslash, the printable ASCII characters stand for themselves,
  BS, TAB, LF, FF and CR have their short escapes, and every other character is written
  as a backslash, \<open>u\<close> and four hexadecimal digits in lower case.
\<close>

datatype json = JStr string | JObj "(string \<times> json) list"

definition hex_digit :: "nat \<Rightarrow> char" where
  "hex_digit n = ''0123456789abcdef'' ! (n mod 16)"

definition escape_char :: "char \<Rightarrow> string" where
  "escape_char c =
     (let n = (of_char c :: nat)
      in if n = 92 then [CHR 0x5C, CHR 0x5C]
         else if n = 34 then [CHR 0x5C, CHR 0x22]
         else if 32 \<le> n \<and> n \<le> 126 then [c]
         else if n = 8 then [CHR 0x5C, CHR ''b'']
         else if n = 12 then [CHR 0x5C, CHR ''f'']
         else if n = 10 then [CHR 0x5C, CHR ''n'']
         else if n = 13 then [CHR 0x5C, CHR ''r'']
         else if n = 9 then [CHR 0x5C, CHR ''t'']
         else [CHR 0x5C, CHR ''u'', CHR ''0'', CHR ''0'', hex_digit (n div 16), hex_digit n])"

definition encode_string :: "string \<Rightarrow> string" where
  "encode_string s = [CHR 0x22] @ concat (map escape_char s) @ [CHR 0x22]"

fun join :: "string \<Rightarrow> string list \<Rightarrow> string" where
  \<comment> \<open>\<open>sep.join(xs)\<close>\<close>
  "join sep [] = []"
| "join sep [x] = x"
| "join sep (x # y # xs) = x @ sep @ join sep (y # xs)"

definition newline_indent :: "nat \<Rightarrow> string" where
  \<comment> \<open>a line feed and four spaces for each level of nesting\<close>
  "newline_indent level = CHR 0x0A # replicate (4 * level) CHR '' ''"

fun iterencode :: "nat \<Rightarrow> json \<Rightarrow> string" where
  "iterencode level (JStr s) = encode_string s"
| "iterencode level (JObj items) =
     (if items = [] then ''{}''
      else ''{'' @ newline_indent (level + 1) @
           join ('','' @ newline_indent (level + 1))
             (map (\<lambda>kv. encode_string (fst kv) @ '': '' @ iterencode (level + 1) (snd kv)) items) @
           newline_indent level @ ''}'')"

definition to_json :: "deps \<Rightarrow> json" where
  "to_json d = JObj (map (\<lambda>(package_name, info). (package_name, JObj (map (\<lambda>(k, v). (k, JStr v)) info))) d)"

definition get_or :: "info \<Rightarrow> string \<Rightarrow> string \<Rightarrow> string" where
  \<comment> \<open>\<open>info.get(k, default)\<close>\<close>
  "get_or info k dflt = (case dict_get info k of None \<Rightarrow> dflt | Some v \<Rightarrow> v)"

definition generate_report :: "string \<Rightarrow> deps \<Rightarrow> string" where
  "generate_report output_format d =
     (if output_format = ''json'' then iterencode 0 (to_json d)
      else foldl (\<lambda>report (package_name, info).
             report @ [CHR 0x0A] @ ''Package: '' @ package_name @ [CHR 0x0A]
                    @ ''  Version: '' @ get_or info ''version'' ''UNKNOWN'' @ [CHR 0x0A]
                    @ ''  License: '' @ get_or info ''license'' ''UNKNOWN'' @ [CHR 0x0A]
                    @ ''  Homepage: '' @ get_or info ''homepage'' ''UNKNOWN'' @ [CHR 0x0A])
           (''License Compliance Report:'' @ [CHR 0x0A]) d)"

text \<open>
  \<open>main\<close>, after the arguments are parsed: the exit status of the process and what it
  printed on standard output, if anything.  \<open>is_dir\<close> is the answer of
  \<open>os.path.isdir(project_path)\<close>.
\<close>

definition main :: "bool \<Rightarrow> string \<Rightarrow> proc \<Rightarrow> (string \<Rightarrow> proc) \<Rightarrow> nat \<times> string option" where
  "main is_dir output_format freeze pip_show =
     (if \<not> is_dir then (1, None)
      else (case scan_licenses freeze pip_show of
              Inl (SystemExit status) \<Rightarrow> (status, None)
            | Inl e \<Rightarrow> (1, None)
            | Inr d \<Rightarrow> (0, Some (generate_report output_format d @ [CHR 0x0A]))))"


section \<open>Notions for the statements and closed forms for the proofs\<close>

text \<open>
  For the statements about enumeration: the name a line carries, that is the text before
  its leftmost \<open>==\<close>.
\<close>

definition line_name :: "string \<Rightarrow> string option" where
  "line_name l = (case find_sep ''=='' l of None \<Rightarrow> None | Some (n, v) \<Rightarrow> Some n)"

text \<open>The two tests of the loop of \<open>_get_license_info\<close> on a line.\<close>

abbreviation license_line :: "string \<Rightarrow> bool" where
  "license_line l \<equiv> startswith (lower l) ''license:''"

abbreviation homepage_line :: "string \<Rightarrow> bool" where
  "homepage_line l \<equiv> startswith (lower l) ''home-page:''"

definition after_colon :: "string \<Rightarrow> string" where
  \<comment> \<open>the text after the first colon of a line\<close>
  "after_colon l = tl (dropWhile (\<lambda>c. c \<noteq> CHR '':'') l)"

text \<open>
  What the loop of \<open>_get_license_info\<close> computes, without the loop: it reads the
  lines before the first license line, stores the home page of each home-page line among
  them, and takes the license from the first license line.
\<close>

definition homepages :: "string list \<Rightarrow> info \<Rightarrow> info" where
  \<comment> \<open>a record after the loop has stored the home pages of the lines it has read\<close>
  "homepages ls info =
     foldl (\<lambda>i l. dict_set i ''homepage'' (strip (after_colon l))) info
       (filter homepage_line (takeWhile (\<lambda>l. \<not> license_line l) ls))"

definition found_license :: "string list \<Rightarrow> string \<Rightarrow> string" where
  \<comment> \<open>\<open>license_info\<close> after the loop\<close>
  "found_license ls license_info =
     (case dropWhile (\<lambda>l. \<not> license_line l) ls of
        [] \<Rightarrow> license_info
      | l # _ \<Rightarrow> strip (after_colon l))"

definition resolved :: "proc \<Rightarrow> info \<Rightarrow> info" where
  \<comment> \<open>a record after \<open>_get_license_info\<close>, from the outcome of the metadata command\<close>
  "resolved outcome info =
     (case execute_command outcome of
        Inl e \<Rightarrow> dict_set info ''license'' ''UNKNOWN''
      | Inr output \<Rightarrow>
          dict_set (homepages (splitlines output) info) ''license''
            (found_license (splitlines output) ''UNKNOWN''))"

definition json_item :: "string \<times> info \<Rightarrow> string" where
  \<comment> \<open>a package in the JSON report: its key, and its record one level down\<close>
  "json_item e = encode_string (fst e) @ '': '' @
     iterencode 1 (JObj (map (\<lambda>(k, v). (k, JStr v)) (snd e)))"

section \<open>Properties\<close>

subsection \<open>Dictionaries\<close>

lemma map_of_dict_set: "map_of (dict_set d k v) = (map_of d)(k \<mapsto> v)"
  by (induction d) (auto simp: fun_eq_iff)

lemma keys_dict_set:
  "keys (dict_set d k v) = (if k \<in> set (keys d) then keys d else keys d @ [k])"
  by (induction d) (force simp: keys_def)+

lemma distinct_dict_set: "distinct (keys d) \<Longrightarrow> distinct (keys (dict_set d k v))"
  by (simp add: keys_dict_set)

lemma dict_set_same: "map_of d k = Some v \<Longrightarrow> dict_set d k v = d"
  by (induction d) (auto split: if_splits)

lemma dict_set_twice: "dict_set (dict_set d k v) k w = dict_set d k w"
  by (induction d) auto

lemma one_entry:
  "distinct (keys d) \<Longrightarrow> map_of d k = Some v \<Longrightarrow> filter (\<lambda>e. fst e = k) d = [(k, v)]"
proof (induction d)
  case Nil
  then show ?case by simp
next
  case (Cons e d)
  show ?case
  proof (cases "fst e = k")
    case True
    with Cons.prems have "k \<notin> fst ` set d" and "e = (k, v)"
      by (auto simp: keys_def)
    then have "filter (\<lambda>e. fst e = k) d = []"
      by (auto simp: filter_empty_conv)
    with True \<open>e = (k, v)\<close> show ?thesis by simp
  next
    case False
    with Cons show ?thesis by (auto simp: keys_def)
  qed
qed

subsection \<open>Searching and splitting\<close>

declare split_all.simps [simp del] splitlines.simps [simp del]

lemma find_sep_append: "find_sep sep s = Some (a, b) \<Longrightarrow> s = a @ sep @ b"
proof (induction s arbitrary: a)
  case Nil
  then show ?case by (simp split: if_splits)
next
  case (Cons c cs)
  show ?case
  proof (cases "prefix sep (c # cs)")
    case True
    with Cons.prems have "a = []" "b = drop (length sep) (c # cs)" by auto
    moreover from True obtain r where "c # cs = sep @ r" by (auto simp: prefix_def)
    ultimately show ?thesis by simp
  next
    case False
    with Cons.prems obtain a' where "find_sep sep cs = Some (a', b)" "a = c # a'"
      by (auto split: option.splits)
    with Cons.IH show ?thesis by auto
  qed
qed

lemma find_sep_char:
  "c \<notin> set a \<Longrightarrow> find_sep [c] (a @ c # b) = Some (a, b)"
  by (induction a) auto

lemma find_sep_char_None: "c \<notin> set s \<Longrightarrow> find_sep [c] s = None"
  by (induction s) auto

lemma split_all_not_Nil: "split_all sep s \<noteq> []"
  by (subst split_all.simps) (auto split: option.splits)

lemma split_all_single: "split_all sep s = [x] \<Longrightarrow> x = s"
  by (subst (asm) split_all.simps) (auto split: option.splits if_splits simp: split_all_not_Nil)

lemma split_all_two:
  assumes "sep \<noteq> []" and "contains sep s" and "split_all sep s = [n, v]"
  shows "find_sep sep s = Some (n, v)"
proof -
  from assms(2) obtain a b where f: "find_sep sep s = Some (a, b)"
    by (auto simp: contains_def)
  with assms(1) have "split_all sep s = a # split_all sep b"
    by (subst split_all.simps) simp
  with assms(3) have "a = n" and sb: "split_all sep b = [v]" by auto
  from sb have "v = b" by (rule split_all_single)
  with f \<open>a = n\<close> show ?thesis by simp
qed

subsection \<open>Enumeration\<close>

lemma set_dict_set: "set (dict_set d k v) \<subseteq> insert (k, v) (set d)"
  by (induction d) (auto split: if_splits)

lemma deps_loop_step:
  assumes "deps_loop (l # ls) d = Inr d'"
  shows "(\<not> contains ''=='' l \<and> line_name l = None \<and> deps_loop ls d = Inr d') \<or>
         (\<exists>n v. find_sep ''=='' l = Some (n, v) \<and> line_name l = Some n \<and>
                deps_loop ls (dict_set d n [(''version'', v)]) = Inr d')"
proof (cases "contains ''=='' l")
  case False
  with assms show ?thesis
    by (cases "find_sep ''=='' l") (auto simp: contains_def line_name_def)
next
  case True
  with assms obtain n v where sp: "split_all ''=='' l = [n, v]"
    and rest: "deps_loop ls (dict_set d n [(''version'', v)]) = Inr d'"
    by (auto split: list.splits)
  from True sp have "find_sep ''=='' l = Some (n, v)"
    by (intro split_all_two) auto
  with rest show ?thesis by (simp add: line_name_def)
qed

lemma deps_loop_distinct:
  "deps_loop ls d = Inr d' \<Longrightarrow> distinct (keys d) \<Longrightarrow> distinct (keys d')"
proof (induction ls arbitrary: d)
  case Nil
  then show ?case by simp
next
  case (Cons l ls)
  from deps_loop_step [OF Cons.prems(1)] show ?case
    using Cons.IH Cons.prems(2) by (auto intro: distinct_dict_set)
qed

lemma deps_loop_fresh:
  "deps_loop ls d = Inr d' \<Longrightarrow> (\<And>p i. (p, i) \<in> set d \<Longrightarrow> \<exists>v. i = [(''version'', v)])
     \<Longrightarrow> (p, i) \<in> set d' \<Longrightarrow> \<exists>v. i = [(''version'', v)]"
proof (induction ls arbitrary: d)
  case Nil
  then show ?case by auto
next
  case (Cons l ls)
  from deps_loop_step [OF Cons.prems(1)] show ?case
  proof (elim disjE conjE exE)
    assume "deps_loop ls d = Inr d'"
    with Cons.IH Cons.prems(2,3) show ?thesis by blast
  next
    fix n v
    assume r: "deps_loop ls (dict_set d n [(''version'', v)]) = Inr d'"
    have "\<And>p i. (p, i) \<in> set (dict_set d n [(''version'', v)]) \<Longrightarrow> \<exists>w. i = [(''version'', w)]"
      using set_dict_set [of d n "[(''version'', v)]"] Cons.prems(2) by auto
    with Cons.IH [OF r] Cons.prems(3) show ?thesis by blast
  qed
qed

lemma deps_loop_other:
  "deps_loop ls d = Inr d' \<Longrightarrow> filter (\<lambda>l. line_name l = Some n) ls = []
     \<Longrightarrow> map_of d' n = map_of d n"
proof (induction ls arbitrary: d)
  case Nil
  then show ?case by simp
next
  case (Cons l ls)
  from Cons.prems(2) have nl: "line_name l \<noteq> Some n"
    and fl: "filter (\<lambda>l. line_name l = Some n) ls = []"
    by (auto split: if_splits)
  from deps_loop_step [OF Cons.prems(1)] show ?case
  proof (elim disjE conjE exE)
    assume "deps_loop ls d = Inr d'"
    with Cons.IH fl show ?thesis by blast
  next
    fix m v
    assume "line_name l = Some m"
      and r: "deps_loop ls (dict_set d m [(''version'', v)]) = Inr d'"
    with nl have "m \<noteq> n" by auto
    from Cons.IH [OF r fl] have "map_of d' n = map_of (dict_set d m [(''version'', v)]) n" .
    with \<open>m \<noteq> n\<close> show ?thesis by (simp add: map_of_dict_set)
  qed
qed

lemma deps_loop_last:
  "deps_loop ls d = Inr d' \<Longrightarrow> filter (\<lambda>l. line_name l = Some n) ls \<noteq> []
     \<Longrightarrow> \<exists>v. find_sep ''=='' (last (filter (\<lambda>l. line_name l = Some n) ls)) = Some (n, v) \<and>
             map_of d' n = Some [(''version'', v)]"
proof (induction ls arbitrary: d)
  case Nil
  then show ?case by simp
next
  case (Cons l ls)
  let ?q = "filter (\<lambda>l. line_name l = Some n) ls"
  show ?case
  proof (cases "?q = []")
    case False
    then have la: "last (filter (\<lambda>l. line_name l = Some n) (l # ls)) = last ?q" by simp
    from deps_loop_step [OF Cons.prems(1)] obtain d0 where "deps_loop ls d0 = Inr d'"
      by auto
    from Cons.IH [OF this False] la show ?thesis by simp
  next
    case True
    with Cons.prems(2) have ln: "line_name l = Some n"
      and la: "last (filter (\<lambda>l. line_name l = Some n) (l # ls)) = l"
      by (auto split: if_splits)
    from deps_loop_step [OF Cons.prems(1)] ln obtain m v
      where f: "find_sep ''=='' l = Some (m, v)" and "line_name l = Some m"
        and r: "deps_loop ls (dict_set d m [(''version'', v)]) = Inr d'"
      by auto
    with ln have "m = n" by simp
    from deps_loop_other [OF r True]
    have "map_of d' n = map_of (dict_set d m [(''version'', v)]) n" .
    with \<open>m = n\<close> have "map_of d' n = Some [(''version'', v)]"
      by (simp add: map_of_dict_set)
    with f la \<open>m = n\<close> show ?thesis by simp
  qed
qed

lemma get_dependencies_Completed:
  "get_dependencies (Completed stdout) d = deps_loop (splitlines (strip stdout)) d"
  by (simp add: get_dependencies_def)

text \<open>
  When enumeration returns a mapping, its keys are the names of the lines that have
  a \<open>==\<close>: such a line adds its name, and a line without \<open>==\<close> adds nothing.
\<close>

lemma enumeration_keys:
  assumes "get_dependencies (Completed stdout) [] = Inr d"
  shows "set (keys d) = {n. \<exists>l \<in> set (splitlines (strip stdout)). line_name l = Some n}"
proof -
  let ?lines = "splitlines (strip stdout)"
  from assms have loop: "deps_loop ?lines [] = Inr d"
    by (simp add: get_dependencies_Completed)
  have "n \<in> set (keys d) \<longleftrightarrow> (\<exists>l \<in> set ?lines. line_name l = Some n)" for n
  proof (cases "filter (\<lambda>l. line_name l = Some n) ?lines = []")
    case True
    from deps_loop_other [OF loop True] have "map_of d n = None" by simp
    then have "n \<notin> set (keys d)" by (simp add: keys_def map_of_eq_None_iff)
    moreover from True have "\<not> (\<exists>l \<in> set ?lines. line_name l = Some n)"
      by (simp add: filter_empty_conv)
    ultimately show ?thesis by simp
  next
    case False
    from deps_loop_last [OF loop False] obtain v where "map_of d n = Some [(''version'', v)]"
      by blast
    then have "n \<in> set (keys d)"
      by (auto simp: keys_def dest: map_of_SomeD intro: rev_image_eqI)
    moreover from False have "\<exists>l \<in> set ?lines. line_name l = Some n"
      by (simp add: filter_empty_conv)
    ultimately show ?thesis by simp
  qed
  then show ?thesis by auto
qed

text \<open>
  Claim C10.  Whenever enumeration returns a mapping and one name stands before the
  leftmost \<open>==\<close> of more than one line of the output, the mapping has exactly one
  entry for that name, and its version is the text after the leftmost \<open>==\<close> of the
  last of these lines: a later line overwrites an earlier one.
\<close>

theorem duplicate_names_last_wins:
  assumes "get_dependencies (Completed stdout) [] = Inr d"
    and "qualifying = filter (\<lambda>l. line_name l = Some n) (splitlines (strip stdout))"
    and "1 < length qualifying"
  shows "\<exists>v. find_sep ''=='' (last qualifying) = Some (n, v) \<and>
             filter (\<lambda>e. fst e = n) d = [(n, [(''version'', v)])]"
proof -
  from assms(1) have loop: "deps_loop (splitlines (strip stdout)) [] = Inr d"
    by (simp add: get_dependencies_Completed)
  from assms(3) have "qualifying \<noteq> []" by auto
  with deps_loop_last [OF loop, of n] assms(2) obtain v
    where f: "find_sep ''=='' (last qualifying) = Some (n, v)"
      and m: "map_of d n = Some [(''version'', v)]"
    by auto
  from deps_loop_distinct [OF loop] have "distinct (keys d)" by (simp add: keys_def)
  from one_entry [OF this m] f show ?thesis by blast
qed

theorem duplicate_names_last_wins_witness:
  "get_dependencies (Completed ''a==1\<newline>b==2\<newline>a==3\<newline>'') [] =
     Inr [(''a'', [(''version'', ''3'')]), (''b'', [(''version'', ''2'')])] \<and>
   filter (\<lambda>l. line_name l = Some ''a'') (splitlines (strip ''a==1\<newline>b==2\<newline>a==3\<newline>''))
     = [''a==1'', ''a==3''] \<and>
   (\<exists>v. find_sep ''=='' (last [''a==1'', ''a==3'']) = Some (''a'', v) \<and>
        filter (\<lambda>e. fst e = ''a'') [(''a'', [(''version'', ''3'')]), (''b'', [(''version'', ''2'')])]
          = [(''a'', [(''version'', v)])])"
proof -
  have g: "get_dependencies (Completed ''a==1\<newline>b==2\<newline>a==3\<newline>'') [] =
     Inr [(''a'', [(''version'', ''3'')]), (''b'', [(''version'', ''2'')])]"
    by code_simp
  have q: "[''a==1'', ''a==3''] =
     filter (\<lambda>l. line_name l = Some ''a'') (splitlines (strip ''a==1\<newline>b==2\<newline>a==3\<newline>''))"
    by code_simp
  have n: "1 < length [''a==1'', ''a==3'']" by simp
  from duplicate_names_last_wins [OF g q n] g q show ?thesis by simp
qed

text \<open>
  Claim C3.  The claim has a line with \<open>==\<close> split at the leftmost \<open>==\<close> only.  On the
  line \<open>pkg==1.0==rc1\<close> that would give the name \<open>pkg\<close> and the version
  \<open>1.0==rc1\<close>; \<open>line.split('==')\<close> gives three parts instead, the unpacking into two
  names fails, and enumeration ends with \<open>ValueError\<close> and no mapping.
\<close>

theorem repeated_separator_is_not_split_once:
  "find_sep ''=='' ''pkg==1.0==rc1'' = Some (''pkg'', ''1.0==rc1'') \<and>
   split_all ''=='' ''pkg==1.0==rc1'' = [''pkg'', ''1.0'', ''rc1''] \<and>
   get_dependencies (Completed ''pkg==1.0==rc1'') [] = Inl ValueError"
  by code_simp

text \<open>
  Claim C9.  There is an enumeration output with a line that has two occurrences of
  \<open>==\<close> on which \<open>_get_dependencies\<close> raises \<open>ValueError\<close>, which its handler does
  not catch, and on which the run ends with exit status 1 and prints no report,
  whatever the output format and the metadata commands are.
\<close>

theorem repeated_separator_aborts_run:
  "\<exists>stdout l a b c.
     l \<in> set (splitlines (strip stdout)) \<and> l = a @ ''=='' @ b @ ''=='' @ c \<and>
     get_dependencies (Completed stdout) [] = Inl ValueError \<and>
     (\<forall>output_format pip_show. main True output_format (Completed stdout) pip_show = (1, None))"
proof -
  have l: "''a==1==2'' \<in> set (splitlines (strip ''a==1==2''))" by code_simp
  have g: "get_dependencies (Completed ''a==1==2'') [] = Inl ValueError" by code_simp
  have m: "main True output_format (Completed ''a==1==2'') pip_show = (1, None)"
    for output_format pip_show
    by (simp add: main_def scan_licenses_def g)
  have "''a==1==2'' = ''a'' @ ''=='' @ ''1'' @ ''=='' @ ''2''" by simp
  with l g m show ?thesis by blast
qed

subsection \<open>Resolution\<close>

lemma lower_char_colon: "lower_char c = CHR '':'' \<Longrightarrow> c = CHR '':''"
proof -
  assume h: "lower_char c = CHR '':''"
  define n where "n = (of_char c :: nat)"
  show "c = CHR '':''"
  proof (cases "(65 \<le> n \<and> n \<le> 90) \<or> (192 \<le> n \<and> n \<le> 222 \<and> n \<noteq> 215)")
    case True
    with h have "char_of (n + 32) = CHR '':''"
      by (simp add: lower_char_def n_def Let_def)
    then have "(of_char (char_of (n + 32)) :: nat) = of_char (CHR '':'')" by simp
    then have "(n + 32) mod 256 = 58" by simp
    with True show ?thesis by auto
  next
    case False
    then have "lower_char c = c" by (auto simp: lower_char_def n_def Let_def)
    with h show ?thesis by simp
  qed
qed

lemma colon_in_line:
  assumes "startswith (lower l) p" and "CHR '':'' \<in> set p"
  shows "CHR '':'' \<in> set l"
proof -
  from assms(1) have "set p \<subseteq> set (lower l)"
    by (auto simp: startswith_def dest: set_mono_prefix)
  with assms(2) have "CHR '':'' \<in> lower_char ` set l" by (auto simp: lower_def)
  then show ?thesis by (auto dest: lower_char_colon [OF sym])
qed

lemma after_colon_append:
  assumes "CHR '':'' \<notin> set a"
  shows "after_colon (a @ '':'' @ b) = b"
proof -
  have "dropWhile (\<lambda>c. c \<noteq> CHR '':'') (a @ CHR '':'' # b) =
        dropWhile (\<lambda>c. c \<noteq> CHR '':'') (CHR '':'' # b)"
    using assms by (intro dropWhile_append2) auto
  then show ?thesis by (simp add: after_colon_def)
qed

lemma index1_split_once:
  assumes "CHR '':'' \<in> set l"
  shows "index1 (split_once '':'' l) = Inr (after_colon l)"
proof -
  let ?a = "takeWhile (\<lambda>c. c \<noteq> CHR '':'') l"
  let ?r = "dropWhile (\<lambda>c. c \<noteq> CHR '':'') l"
  from assms have "?r \<noteq> []" by (simp add: dropWhile_eq_Nil_conv) 
  moreover have "hd ?r = CHR '':''" using hd_dropWhile [OF \<open>?r \<noteq> []\<close>] by simp
  ultimately have r: "?r = CHR '':'' # after_colon l"
    by (cases ?r) (auto simp: after_colon_def)
  have "l = ?a @ ?r" by simp
  with r have l: "l = ?a @ CHR '':'' # after_colon l" by simp
  have "CHR '':'' \<notin> set ?a" by (auto dest: set_takeWhileD)
  then have "find_sep '':'' (?a @ CHR '':'' # after_colon l) = Some (?a, after_colon l)"
    by (rule find_sep_char)
  with l have "find_sep '':'' l = Some (?a, after_colon l)" by simp
  then show ?thesis by (simp add: split_once_def index1_def)
qed

lemma set_field_Some:
  "map_of d p = Some info \<Longrightarrow> set_field d p k v = Inr (dict_set d p (dict_set info k v))"
  by (simp add: set_field_def dict_get_def)

lemma license_loop_closed:
  "map_of d p = Some info \<Longrightarrow>
   license_loop ls p lic d = (dict_set d p (homepages ls info), Inr (found_license ls lic))"
proof (induction ls arbitrary: d info)
  case Nil
  then show ?case by (simp add: homepages_def found_license_def dict_set_same)
next
  case (Cons l ls)
  show ?case
  proof (cases "license_line l")
    case True
    then have "index1 (split_once '':'' l) = Inr (after_colon l)"
      by (intro index1_split_once colon_in_line [of l "''license:''"]) auto
    with True Cons.prems show ?thesis
      by (simp add: homepages_def found_license_def dict_set_same)
  next
    case nl: False
    show ?thesis
    proof (cases "homepage_line l")
      case True
      then have i: "index1 (split_once '':'' l) = Inr (after_colon l)"
        by (intro index1_split_once colon_in_line [of l "''home-page:''"]) auto
      let ?info = "dict_set info ''homepage'' (strip (after_colon l))"
      let ?d = "dict_set d p ?info"
      have "map_of ?d p = Some ?info" by (simp add: map_of_dict_set)
      from Cons.IH [OF this]
      have "license_loop ls p lic ?d =
              (dict_set ?d p (homepages ls ?info), Inr (found_license ls lic))" .
      moreover have "homepages (l # ls) info = homepages ls ?info"
        using nl True by (simp add: homepages_def)
      moreover have "found_license (l # ls) lic = found_license ls lic"
        using nl by (simp add: found_license_def)
      ultimately show ?thesis
        using nl True i Cons.prems by (simp add: set_field_Some dict_set_twice)
    next
      case False
      have "homepages (l # ls) info = homepages ls info"
        using nl False by (simp add: homepages_def)
      moreover have "found_license (l # ls) lic = found_license ls lic"
        using nl by (simp add: found_license_def)
      ultimately show ?thesis
        using nl False Cons.IH [OF Cons.prems] by simp
    qed
  qed
qed

lemma get_license_info_closed:
  assumes "map_of d p = Some info"
  shows "get_license_info pip_show p d = Inr (dict_set d p (resolved (pip_show p) info))"
proof (cases "execute_command (pip_show p)")
  case (Inl e)
  with assms show ?thesis
    by (simp add: get_license_info_def resolved_def set_field_Some)
next
  case (Inr out)
  let ?d = "dict_set d p (homepages (splitlines out) info)"
  have "map_of ?d p = Some (homepages (splitlines out) info)"
    by (simp add: map_of_dict_set)
  then have "set_field ?d p ''license'' (found_license (splitlines out) ''UNKNOWN'') =
      Inr (dict_set d p (resolved (pip_show p) info))"
    by (simp add: set_field_Some dict_set_twice resolved_def Inr)
  with Inr license_loop_closed [OF assms] show ?thesis
    by (simp add: get_license_info_def)
qed

lemma map_of_keys: "k \<in> set (keys d) \<Longrightarrow> \<exists>v. map_of d k = Some v"
  by (induction d) (auto simp: keys_def)

lemma resolve_all_closed:
  "distinct ps \<Longrightarrow> set ps \<subseteq> set (keys d) \<Longrightarrow>
   \<exists>d'. resolve_all pip_show ps d = Inr d' \<and> keys d' = keys d \<and>
        (\<forall>q. map_of d' q =
           (if q \<in> set ps then map_option (resolved (pip_show q)) (map_of d q) else map_of d q))"
proof (induction ps arbitrary: d)
  case Nil
  then show ?case by simp
next
  case (Cons p ps)
  from Cons.prems(2) obtain info where info: "map_of d p = Some info"
    using map_of_keys [of p d] by auto
  let ?d = "dict_set d p (resolved (pip_show p) info)"
  have g: "get_license_info pip_show p d = Inr ?d"
    by (rule get_license_info_closed [OF info])
  from Cons.prems(2) have k: "keys ?d = keys d" by (simp add: keys_dict_set)
  with Cons.prems have "distinct ps" "set ps \<subseteq> set (keys ?d)" by auto
  from Cons.IH [OF this] obtain d' where r: "resolve_all pip_show ps ?d = Inr d'"
    and kd: "keys d' = keys ?d"
    and m: "\<And>q. map_of d' q =
           (if q \<in> set ps then map_option (resolved (pip_show q)) (map_of ?d q) else map_of ?d q)"
    by blast
  from Cons.prems(1) have np: "p \<notin> set ps" by simp
  have "map_of d' q =
      (if q \<in> set (p # ps) then map_option (resolved (pip_show q)) (map_of d q) else map_of d q)"
    for q
    using m [of q] np info by (auto simp: map_of_dict_set)
  with g r kd k show ?case by simp
qed

lemma get_dependencies_Inr:
  assumes "get_dependencies freeze [] = Inr d"
  shows "distinct (keys d)"
    and "map_of d q = Some info \<Longrightarrow> \<exists>v. info = [(''version'', v)]"
proof -
  from assms obtain stdout where "freeze = Completed stdout"
    by (cases freeze) (auto simp: get_dependencies_def)
  with assms have loop: "deps_loop (splitlines (strip stdout)) [] = Inr d"
    by (simp add: get_dependencies_Completed)
  from deps_loop_distinct [OF loop] show "distinct (keys d)" by (simp add: keys_def)
  assume "map_of d q = Some info"
  then have "(q, info) \<in> set d" by (rule map_of_SomeD)
  with deps_loop_fresh [OF loop, of q info] show "\<exists>v. info = [(''version'', v)]" by auto
qed

lemma scan_licenses_closed:
  assumes "get_dependencies freeze [] = Inr d"
  shows "\<exists>final. scan_licenses freeze pip_show = Inr final \<and> keys final = keys d \<and>
           (\<forall>q. map_of final q = map_option (resolved (pip_show q)) (map_of d q))"
proof -
  from get_dependencies_Inr(1) [OF assms] have "distinct (keys d)" .
  from resolve_all_closed [OF this, of d pip_show] obtain d'
    where r: "resolve_all pip_show (keys d) d = Inr d'" and k: "keys d' = keys d"
      and m: "\<And>q. map_of d' q =
        (if q \<in> set (keys d) then map_option (resolved (pip_show q)) (map_of d q) else map_of d q)"
    by auto
  have "map_of d' q = map_option (resolved (pip_show q)) (map_of d q)" for q
  proof (cases "q \<in> set (keys d)")
    case True
    with m [of q] show ?thesis by simp
  next
    case False
    then have "map_of d q = None" by (simp add: keys_def map_of_eq_None_iff)
    with m [of q] False show ?thesis by simp
  qed
  with r k assms show ?thesis by (simp add: scan_licenses_def)
qed

text \<open>What a scan leaves for a package: its record of enumeration, resolved once.\<close>

lemma scan_licenses_record:
  assumes "scan_licenses freeze pip_show = Inr final" and "dict_get final p = Some info"
  shows "\<exists>v. info = resolved (pip_show p) [(''version'', v)]"
proof -
  from assms(1) obtain d where d: "get_dependencies freeze [] = Inr d"
    by (auto simp: scan_licenses_def split: sum.splits)
  from scan_licenses_closed [OF d, of pip_show] assms(1)
  have "map_of final p = map_option (resolved (pip_show p)) (map_of d p)" by auto
  with assms(2) obtain i where i: "map_of d p = Some i" and "info = resolved (pip_show p) i"
    by (auto simp: dict_get_def)
  with get_dependencies_Inr(2) [OF d i] show ?thesis by auto
qed

lemma homepages_fresh:
  "homepages ls [(''version'', v)] =
     (case filter homepage_line (takeWhile (\<lambda>l. \<not> license_line l) ls) of
        [] \<Rightarrow> [(''version'', v)]
      | h # hs \<Rightarrow> [(''version'', v), (''homepage'', strip (after_colon (last (h # hs))))])"
proof -
  have step: "foldl (\<lambda>i l. dict_set i ''homepage'' (strip (after_colon l)))
                [(''version'', v), (''homepage'', x)] hs =
              [(''version'', v), (''homepage'', last (x # map (\<lambda>l. strip (after_colon l)) hs))]"
    for x hs
    by (induction hs arbitrary: x) auto
  show ?thesis
    by (auto simp: homepages_def step last_map split: list.splits)
qed

lemma resolved_license:
  "dict_get (resolved outcome info) ''license'' =
     Some (case execute_command outcome of
             Inl e \<Rightarrow> ''UNKNOWN''
           | Inr out \<Rightarrow> found_license (splitlines out) ''UNKNOWN'')"
  by (simp add: resolved_def dict_get_def map_of_dict_set split: sum.splits)

lemma resolved_fresh_failure:
  "execute_command outcome = Inl e \<Longrightarrow>
   resolved outcome [(''version'', v)] = [(''version'', v), (''license'', ''UNKNOWN'')]"
  by (simp add: resolved_def)

lemma resolved_fresh_success:
  "execute_command outcome = Inr out \<Longrightarrow>
   resolved outcome [(''version'', v)] =
     (case filter homepage_line (takeWhile (\<lambda>l. \<not> license_line l) (splitlines out)) of
        [] \<Rightarrow> [(''version'', v), (''license'', found_license (splitlines out) ''UNKNOWN'')]
      | h # hs \<Rightarrow> [(''version'', v), (''homepage'', strip (after_colon (last (h # hs)))),
                   (''license'', found_license (splitlines out) ''UNKNOWN'')])"
  by (simp add: resolved_def homepages_fresh split: list.splits)

text \<open>
  Claim C5.  After a scan, a package whose metadata command succeeded with an output
  none of whose lines starts, in lower case, with \<open>license:\<close> has the license
  \<open>UNKNOWN\<close>.
\<close>

theorem no_license_line_gives_unknown:
  assumes "scan_licenses freeze pip_show = Inr final"
    and "dict_get final p = Some info"
    and "pip_show p = Completed stdout"
    and "\<forall>l \<in> set (splitlines (strip stdout)). \<not> license_line l"
  shows "dict_get info ''license'' = Some ''UNKNOWN''"
proof -
  from scan_licenses_record [OF assms(1,2)] obtain v
    where "info = resolved (pip_show p) [(''version'', v)]" ..
  moreover from assms(4)
  have dw: "dropWhile (\<lambda>l. \<not> license_line l) (splitlines (strip stdout)) = []"
    by simp
  have "found_license (splitlines (strip stdout)) ''UNKNOWN'' = ''UNKNOWN''"
    unfolding found_license_def dw by simp
  ultimately show ?thesis
    using assms(3) by (simp add: resolved_license)
qed

theorem no_license_line_gives_unknown_witness:
  "scan_licenses (Completed ''alpha==1.0'')
     (\<lambda>p. Completed ''Name: alpha\<newline>Home-page: http://a.example\<newline>'') =
     Inr [(''alpha'', [(''version'', ''1.0''), (''homepage'', ''http://a.example''),
                       (''license'', ''UNKNOWN'')])] \<and>
   dict_get [(''version'', ''1.0''), (''homepage'', ''http://a.example''),
             (''license'', ''UNKNOWN'')] ''license'' = Some ''UNKNOWN''"
proof -
  let ?show = "\<lambda>p :: string. Completed ''Name: alpha\<newline>Home-page: http://a.example\<newline>''"
  let ?info = "[(''version'', ''1.0''), (''homepage'', ''http://a.example''),
                (''license'', ''UNKNOWN'')]"
  have s: "scan_licenses (Completed ''alpha==1.0'') ?show = Inr [(''alpha'', ?info)]"
    by code_simp
  have g: "dict_get [(''alpha'', ?info)] ''alpha'' = Some ?info"
    by (simp add: dict_get_def)
  have o: "?show ''alpha'' = Completed ''Name: alpha\<newline>Home-page: http://a.example\<newline>''"
    by simp
  have l: "splitlines (strip ''Name: alpha\<newline>Home-page: http://a.example\<newline>'') =
             [''Name: alpha'', ''Home-page: http://a.example'']"
    by code_simp
  have n: "\<not> license_line ''Name: alpha''" "\<not> license_line ''Home-page: http://a.example''"
    by code_simp+
  have "\<forall>l \<in> set (splitlines (strip ''Name: alpha\<newline>Home-page: http://a.example\<newline>'')).
          \<not> license_line l"
    unfolding l using n by simp
  from no_license_line_gives_unknown [OF s g o this] s show ?thesis by simp
qed

text \<open>
  Claim C4.  After a scan, for a package whose metadata command succeeded: when \<open>l\<close> is
  the first line of the output that starts, in lower case, with \<open>license:\<close>, the
  license of the package is the text of \<open>l\<close> after its first colon, stripped of the
  whitespace around it.  The lines after \<open>l\<close> are arbitrary: they do not matter.
\<close>

theorem first_license_line_wins:
  assumes "scan_licenses freeze pip_show = Inr final"
    and "dict_get final p = Some info"
    and "pip_show p = Completed stdout"
    and "splitlines (strip stdout) = before @ l # rest"
    and "\<forall>x \<in> set before. \<not> license_line x"
    and "license_line l"
    and "l = a @ '':'' @ b" and "CHR '':'' \<notin> set a"
  shows "dict_get info ''license'' = Some (strip b)"
proof -
  from scan_licenses_record [OF assms(1,2)] obtain v
    where i: "info = resolved (pip_show p) [(''version'', v)]" ..
  from assms(5,6)
  have "dropWhile (\<lambda>l. \<not> license_line l) (before @ l # rest) = l # rest"
    by (simp add: dropWhile_append3)
  with assms(4) have "found_license (splitlines (strip stdout)) ''UNKNOWN'' = strip (after_colon l)"
    by (simp add: found_license_def)
  moreover from assms(7,8) have "after_colon l = b"
    using after_colon_append [of a b] by simp
  ultimately show ?thesis
    using i assms(3) by (simp add: resolved_license)
qed

theorem first_license_line_wins_witness:
  "scan_licenses (Completed ''alpha==1.0'')
     (\<lambda>p. Completed ''Name: alpha\<newline>LICENSE:  MIT \<newline>License: GPL\<newline>'') =
     Inr [(''alpha'', [(''version'', ''1.0''), (''license'', ''MIT'')])] \<and>
   splitlines (strip ''Name: alpha\<newline>LICENSE:  MIT \<newline>License: GPL\<newline>'') =
     [''Name: alpha''] @ ''LICENSE:  MIT '' # [''License: GPL''] \<and>
   dict_get [(''version'', ''1.0''), (''license'', ''MIT'')] ''license'' = Some (strip ''  MIT '')"
proof -
  let ?show = "\<lambda>p :: string. Completed ''Name: alpha\<newline>LICENSE:  MIT \<newline>License: GPL\<newline>''"
  let ?info = "[(''version'', ''1.0''), (''license'', ''MIT'')]"
  have s: "scan_licenses (Completed ''alpha==1.0'') ?show = Inr [(''alpha'', ?info)]"
    by code_simp
  have g: "dict_get [(''alpha'', ?info)] ''alpha'' = Some ?info"
    by (simp add: dict_get_def)
  have o: "?show ''alpha'' = Completed ''Name: alpha\<newline>LICENSE:  MIT \<newline>License: GPL\<newline>''"
    by simp
  have l: "splitlines (strip ''Name: alpha\<newline>LICENSE:  MIT \<newline>License: GPL\<newline>'') =
             [''Name: alpha''] @ ''LICENSE:  MIT '' # [''License: GPL'']"
    by code_simp
  have "\<not> license_line ''Name: alpha''" by code_simp
  then have n: "\<forall>x \<in> set [''Name: alpha'']. \<not> license_line x" by simp
  have y: "license_line ''LICENSE:  MIT ''" by code_simp
  have e: "''LICENSE:  MIT '' = ''LICENSE'' @ '':'' @ ''  MIT ''" by simp
  have c: "CHR '':'' \<notin> set ''LICENSE''" by simp
  from first_license_line_wins [OF s g o l n y e c] s l show ?thesis by simp
qed

text \<open>
  Claim C2.  After a scan, for a package whose metadata command succeeded: when a line
  of the output starts, in lower case, with \<open>license:\<close> and stands before every line
  that starts with \<open>home-page:\<close>, the record of the package has no \<open>homepage\<close> field.
\<close>

theorem license_before_homepage_records_no_homepage:
  assumes "scan_licenses freeze pip_show = Inr final"
    and "dict_get final p = Some info"
    and "pip_show p = Completed stdout"
    and "lines = splitlines (strip stdout)"
    and "i < length lines" and "license_line (lines ! i)"
    and "\<forall>j < length lines. homepage_line (lines ! j) \<longrightarrow> i < j"
  shows "dict_get info ''homepage'' = None"
proof -
  let ?read = "takeWhile (\<lambda>l. \<not> license_line l) lines"
  from scan_licenses_record [OF assms(1,2)] obtain v
    where info: "info = resolved (pip_show p) [(''version'', v)]" ..
  have len: "length ?read \<le> i"
  proof (rule ccontr)
    assume "\<not> length ?read \<le> i"
    then have "i < length ?read" by simp
    then have "?read ! i \<in> set ?read" by (rule nth_mem)
    moreover from \<open>i < length ?read\<close> have "?read ! i = lines ! i" by (rule takeWhile_nth)
    ultimately have "\<not> license_line (lines ! i)" by (auto dest: set_takeWhileD)
    with assms(6) show False by simp
  qed
  have "filter homepage_line ?read = []"
  proof (rule ccontr)
    assume "filter homepage_line ?read \<noteq> []"
    then obtain x where "x \<in> set ?read" and hx: "homepage_line x"
      by (auto simp: filter_empty_conv)
    then obtain k where k: "k < length ?read" and x: "?read ! k = x"
      by (auto simp: in_set_conv_nth)
    from k have "?read ! k = lines ! k" by (simp add: takeWhile_nth)
    moreover from k have "k < length lines"
      using length_takeWhile_le [of "\<lambda>l. \<not> license_line l" lines] by simp
    ultimately have "i < k" using assms(7) hx x by auto
    with k len show False by simp
  qed
  with info assms(3,4) have "info = [(''version'', v),
      (''license'', found_license lines ''UNKNOWN'')]"
    by (simp add: resolved_fresh_success)
  then show ?thesis by (simp add: dict_get_def)
qed

theorem license_before_homepage_records_no_homepage_witness:
  "scan_licenses (Completed ''alpha==1.0'')
     (\<lambda>p. Completed ''License: MIT\<newline>Home-page: http://a.example\<newline>'') =
     Inr [(''alpha'', [(''version'', ''1.0''), (''license'', ''MIT'')])] \<and>
   splitlines (strip ''License: MIT\<newline>Home-page: http://a.example\<newline>'') =
     [''License: MIT'', ''Home-page: http://a.example''] \<and>
   license_line ([''License: MIT'', ''Home-page: http://a.example''] ! 0) \<and>
   homepage_line ([''License: MIT'', ''Home-page: http://a.example''] ! 1) \<and>
   dict_get [(''version'', ''1.0''), (''license'', ''MIT'')] ''homepage'' = None"
proof -
  let ?show = "\<lambda>p :: string. Completed ''License: MIT\<newline>Home-page: http://a.example\<newline>''"
  let ?info = "[(''version'', ''1.0''), (''license'', ''MIT'')]"
  let ?lines = "[''License: MIT'', ''Home-page: http://a.example'']"
  have s: "scan_licenses (Completed ''alpha==1.0'') ?show = Inr [(''alpha'', ?info)]"
    by code_simp
  have g: "dict_get [(''alpha'', ?info)] ''alpha'' = Some ?info"
    by (simp add: dict_get_def)
  have o: "?show ''alpha'' = Completed ''License: MIT\<newline>Home-page: http://a.example\<newline>''"
    by simp
  have l: "?lines = splitlines (strip ''License: MIT\<newline>Home-page: http://a.example\<newline>'')"
    by code_simp
  have i: "0 < length ?lines" by simp
  have y: "license_line (?lines ! 0)" by code_simp
  have h1: "homepage_line (?lines ! 1)" by code_simp
  have h0: "\<not> homepage_line ''License: MIT''" by code_simp
  have a: "\<forall>j < length ?lines. homepage_line (?lines ! j) \<longrightarrow> 0 < j"
  proof (intro allI impI)
    fix j
    assume "j < length ?lines" and "homepage_line (?lines ! j)"
    with h0 show "0 < j" by (cases j) auto
  qed
  from license_before_homepage_records_no_homepage [OF s g o l i y a] s l [symmetric] y h1
  show ?thesis by simp
qed

text \<open>
  Claim C6.  When enumeration has returned a mapping and the metadata command of one
  of its packages \<open>p\<close> fails (a non-zero exit, or an exception of the launch), the scan
  still returns a mapping with the same packages; in it \<open>p\<close> has its version and the
  license \<open>UNKNOWN\<close>; and every other package has the entry it has in any run that
  differs in the metadata command of \<open>p\<close> only.
\<close>

theorem failed_lookup_is_contained:
  assumes "get_dependencies freeze [] = Inr d"
    and "p \<in> set (keys d)"
    and "execute_command (pip_show p) = Inl e"
  shows "\<exists>final. scan_licenses freeze pip_show = Inr final \<and> keys final = keys d \<and>
           (\<exists>v. dict_get d p = Some [(''version'', v)] \<and>
                dict_get final p = Some [(''version'', v), (''license'', ''UNKNOWN'')]) \<and>
           (\<forall>pip_show'. (\<forall>q. q \<noteq> p \<longrightarrow> pip_show' q = pip_show q) \<longrightarrow>
              (\<exists>final'. scan_licenses freeze pip_show' = Inr final' \<and>
                 (\<forall>q. q \<noteq> p \<longrightarrow> dict_get final' q = dict_get final q)))"
proof -
  from scan_licenses_closed [OF assms(1), of pip_show] obtain final
    where s: "scan_licenses freeze pip_show = Inr final" and k: "keys final = keys d"
      and m: "\<And>q. map_of final q = map_option (resolved (pip_show q)) (map_of d q)"
    by blast
  from assms(2) obtain i where i: "map_of d p = Some i"
    using map_of_keys [of p d] by auto
  from get_dependencies_Inr(2) [OF assms(1) i] obtain v where v: "i = [(''version'', v)]" ..
  from m [of p] i v assms(3)
  have "dict_get final p = Some [(''version'', v), (''license'', ''UNKNOWN'')]"
    by (simp add: dict_get_def resolved_fresh_failure)
  moreover have "\<exists>final'. scan_licenses freeze pip_show' = Inr final' \<and>
                 (\<forall>q. q \<noteq> p \<longrightarrow> dict_get final' q = dict_get final q)"
    if same: "\<forall>q. q \<noteq> p \<longrightarrow> pip_show' q = pip_show q" for pip_show'
  proof -
    from scan_licenses_closed [OF assms(1), of pip_show'] obtain final'
      where s': "scan_licenses freeze pip_show' = Inr final'"
        and m': "\<And>q. map_of final' q = map_option (resolved (pip_show' q)) (map_of d q)"
      by blast
    from m m' same have "\<forall>q. q \<noteq> p \<longrightarrow> dict_get final' q = dict_get final q"
      by (simp add: dict_get_def)
    with s' show ?thesis by blast
  qed
  ultimately show ?thesis using s k i v by (auto simp: dict_get_def)
qed

theorem failed_lookup_is_contained_witness:
  "get_dependencies (Completed ''alpha==1.0\<newline>beta==2.3\<newline>'') [] =
     Inr [(''alpha'', [(''version'', ''1.0'')]), (''beta'', [(''version'', ''2.3'')])] \<and>
   execute_command NonZeroExit = Inl CalledProcessError \<and>
   scan_licenses (Completed ''alpha==1.0\<newline>beta==2.3\<newline>'')
     (\<lambda>p. if p = ''beta'' then NonZeroExit else Completed ''License: MIT'') =
     Inr [(''alpha'', [(''version'', ''1.0''), (''license'', ''MIT'')]),
          (''beta'', [(''version'', ''2.3''), (''license'', ''UNKNOWN'')])] \<and>
   (\<exists>final'. scan_licenses (Completed ''alpha==1.0\<newline>beta==2.3\<newline>'')
        (\<lambda>p. Completed ''License: MIT'') = Inr final' \<and>
      dict_get final' ''alpha'' = Some [(''version'', ''1.0''), (''license'', ''MIT'')])"
proof -
  let ?freeze = "Completed ''alpha==1.0\<newline>beta==2.3\<newline>''"
  let ?show = "\<lambda>p. if p = ''beta'' then NonZeroExit else Completed ''License: MIT''"
  let ?show' = "\<lambda>p :: string. Completed ''License: MIT''"
  let ?d = "[(''alpha'', [(''version'', ''1.0'')]), (''beta'', [(''version'', ''2.3'')])]"
  have g: "get_dependencies ?freeze [] = Inr ?d" by code_simp
  have k: "''beta'' \<in> set (keys ?d)" by (simp add: keys_def)
  have f: "execute_command (?show ''beta'') = Inl CalledProcessError" by simp
  have s: "scan_licenses ?freeze ?show =
     Inr [(''alpha'', [(''version'', ''1.0''), (''license'', ''MIT'')]),
          (''beta'', [(''version'', ''2.3''), (''license'', ''UNKNOWN'')])]"
    by code_simp
  have same: "\<forall>q. q \<noteq> ''beta'' \<longrightarrow> ?show' q = ?show q" by simp
  from failed_lookup_is_contained [of ?freeze ?d "''beta''" ?show CalledProcessError, OF g k f]
    s same
  have "\<exists>final'. scan_licenses ?freeze ?show' = Inr final' \<and>
      dict_get final' ''alpha'' = Some [(''version'', ''1.0''), (''license'', ''MIT'')]"
    by (fastforce simp: dict_get_def)
  with g s show ?thesis by simp
qed

subsection \<open>The text report\<close>

lemma text_report_blocks:
  "foldl (\<lambda>report (package_name, info). report @ f package_name info) start d =
     start @ concat (map (\<lambda>(package_name, info). f package_name info) d)"
  by (induction d arbitrary: start) auto

text \<open>
  Claim C8.  When the output format is not \<open>json\<close>, the report has for every package of
  the mapping a block of four lines after an empty line: the name after \<open>Package:\<close>, and
  after \<open>Version:\<close>, \<open>License:\<close> and \<open>Homepage:\<close> the value of the field, or \<open>UNKNOWN\<close>
  where the record has no such field.
\<close>

theorem text_report_shows_every_package:
  assumes "output_format \<noteq> ''json''" and "(package_name, info) \<in> set d"
  shows "\<exists>before after.
     generate_report output_format d =
       before @ [CHR 0x0A] @ ''Package: '' @ package_name @ [CHR 0x0A]
         @ ''  Version: '' @ (case dict_get info ''version'' of None \<Rightarrow> ''UNKNOWN'' | Some v \<Rightarrow> v) @ [CHR 0x0A]
         @ ''  License: '' @ (case dict_get info ''license'' of None \<Rightarrow> ''UNKNOWN'' | Some v \<Rightarrow> v) @ [CHR 0x0A]
         @ ''  Homepage: '' @ (case dict_get info ''homepage'' of None \<Rightarrow> ''UNKNOWN'' | Some v \<Rightarrow> v) @ [CHR 0x0A]
         @ after"
proof -
  let ?start = "''License Compliance Report:'' @ [CHR 0x0A]"
  let ?block = "\<lambda>package_name info.
      [CHR 0x0A] @ ''Package: '' @ package_name @ [CHR 0x0A]
      @ ''  Version: '' @ get_or info ''version'' ''UNKNOWN'' @ [CHR 0x0A]
      @ ''  License: '' @ get_or info ''license'' ''UNKNOWN'' @ [CHR 0x0A]
      @ ''  Homepage: '' @ get_or info ''homepage'' ''UNKNOWN'' @ [CHR 0x0A]"
  from assms(1) have "generate_report output_format d =
      foldl (\<lambda>report (package_name, info). report @ ?block package_name info) ?start d"
    by (simp add: generate_report_def)
  then have rep: "generate_report output_format d =
      ?start @ concat (map (\<lambda>(package_name, info). ?block package_name info) d)"
    by (simp only: text_report_blocks)
  from assms(2) obtain xs ys where d: "d = xs @ (package_name, info) # ys"
    by (auto dest: split_list)
  let ?f = "\<lambda>(package_name, info). ?block package_name info"
  have e: "generate_report output_format d =
      (?start @ concat (map ?f xs)) @ ?block package_name info @ concat (map ?f ys)"
    by (subst rep) (simp add: d)
  show ?thesis
  proof (intro exI)
    show "generate_report output_format d =
       (?start @ concat (map ?f xs)) @ [CHR 0x0A] @ ''Package: '' @ package_name @ [CHR 0x0A]
         @ ''  Version: '' @ (case dict_get info ''version'' of None \<Rightarrow> ''UNKNOWN'' | Some v \<Rightarrow> v) @ [CHR 0x0A]
         @ ''  License: '' @ (case dict_get info ''license'' of None \<Rightarrow> ''UNKNOWN'' | Some v \<Rightarrow> v) @ [CHR 0x0A]
         @ ''  Homepage: '' @ (case dict_get info ''homepage'' of None \<Rightarrow> ''UNKNOWN'' | Some v \<Rightarrow> v) @ [CHR 0x0A]
         @ concat (map ?f ys)"
      by (subst e) (simp add: get_or_def)
  qed
qed

theorem text_report_shows_every_package_witness:
  "generate_report ''text'' [(''alpha'', [(''version'', ''1.0''), (''license'', ''MIT'')])] =
     ''License Compliance Report:\<newline>'' @
     ''\<newline>Package: alpha\<newline>  Version: 1.0\<newline>  License: MIT\<newline>  Homepage: UNKNOWN\<newline>''"
proof -
  let ?info = "[(''version'', ''1.0''), (''license'', ''MIT'')]"
  have f: "''text'' \<noteq> ''json''" by simp
  have m: "(''alpha'', ?info) \<in> set [(''alpha'', ?info)]" by simp
  have "generate_report ''text'' [(''alpha'', ?info)] =
     ''License Compliance Report:\<newline>'' @
     ''\<newline>Package: alpha\<newline>  Version: 1.0\<newline>  License: MIT\<newline>  Homepage: UNKNOWN\<newline>''"
    by code_simp
  with text_report_shows_every_package [OF f m] show ?thesis by simp
qed

subsection \<open>The JSON report\<close>

lemma join_mem:
  "x \<in> set xs \<Longrightarrow> \<exists>before after. ind @ join (c @ ind) xs = before @ ind @ x @ after"
proof (induction "c @ ind" xs rule: join.induct)
  case 1
  then show ?case by simp
next
  case (2 y)
  then have "ind @ join (c @ ind) [y] = [] @ ind @ x @ []" by simp
  then show ?case by blast
next
  case (3 y z zs)
  show ?case
  proof (cases "x = y")
    case True
    then have "ind @ join (c @ ind) (y # z # zs) =
        [] @ ind @ x @ (c @ ind @ join (c @ ind) (z # zs))"
      by simp
    then show ?thesis by blast
  next
    case False
    with "3.prems" have "x \<in> set (z # zs)" by simp
    from "3.hyps" [OF this] obtain before after
      where "ind @ join (c @ ind) (z # zs) = before @ ind @ x @ after" by blast
    then have "ind @ join (c @ ind) (y # z # zs) = (ind @ y @ c @ before) @ ind @ x @ after"
      by simp
    then show ?thesis by blast
  qed
qed

lemma json_report_items:
  "d \<noteq> [] \<Longrightarrow> generate_report ''json'' d =
     ''{'' @ newline_indent 1 @ join ('','' @ newline_indent 1) (map json_item d)
       @ newline_indent 0 @ ''}''"
  by (simp add: generate_report_def to_json_def json_item_def [abs_def] comp_def case_prod_beta
        iterencode.simps(2) [of 0] del: iterencode.simps)

lemma json_report_mem:
  assumes "e \<in> set d"
  shows "\<exists>before after.
     generate_report ''json'' d = before @ newline_indent 1 @ json_item e @ after"
proof -
  from assms have ne: "d \<noteq> []" by auto
  from assms have "json_item e \<in> set (map json_item d)" by simp
  from join_mem [OF this, of "newline_indent 1" "'',''"] obtain before after
    where "newline_indent 1 @ join ('','' @ newline_indent 1) (map json_item d) =
             before @ newline_indent 1 @ json_item e @ after"
    by blast
  then have "generate_report ''json'' d =
      (''{'' @ before) @ newline_indent 1 @ json_item e @ (after @ newline_indent 0 @ ''}'')"
    by (simp add: json_report_items [OF ne])
  then show ?thesis by blast
qed

lemma indent_text:
  "newline_indent (Suc 0) = ''\<newline>    ''"
  "newline_indent (Suc (Suc 0)) = ''\<newline>        ''"
  by code_simp+

lemma field_text:
  \<open>encode_string ''version'' = ''"version"''\<close>
  \<open>encode_string ''license'' = ''"license"''\<close>
  \<open>encode_string ''homepage'' = ''"homepage"''\<close>
  by code_simp+

lemma json_item_two:
  \<open>json_item (p, [(''version'', v), (''license'', l)]) =
     encode_string p @ '': {\<newline>        "version": '' @ encode_string v
       @ '',\<newline>        "license": '' @ encode_string l @ ''\<newline>    }''\<close>
  by (simp add: json_item_def indent_text field_text)

lemma json_item_three:
  \<open>json_item (p, [(''version'', v), (''homepage'', h), (''license'', l)]) =
     encode_string p @ '': {\<newline>        "version": '' @ encode_string v
       @ '',\<newline>        "homepage": '' @ encode_string h
       @ '',\<newline>        "license": '' @ encode_string l @ ''\<newline>    }''\<close>
  by (simp add: json_item_def indent_text field_text)

lemma scan_licenses_shape:
  assumes "scan_licenses freeze pip_show = Inr final" and "dict_get final p = Some info"
  shows "\<exists>v l. info = [(''version'', v), (''license'', l)] \<or>
               (\<exists>h. info = [(''version'', v), (''homepage'', h), (''license'', l)])"
proof -
  from scan_licenses_record [OF assms] obtain v
    where i: "info = resolved (pip_show p) [(''version'', v)]" ..
  show ?thesis
  proof (cases "execute_command (pip_show p)")
    case (Inl e)
    with i show ?thesis by (simp add: resolved_fresh_failure)
  next
    case (Inr out)
    with i show ?thesis
      by (simp add: resolved_fresh_success split: list.splits)
  qed
qed


text \<open>
  Claim C7, as the code has it.  In the JSON report every package of a scan stands on a
  line of its own after four spaces, and its record lists \<open>version\<close>, then \<open>homepage\<close>
  when the record has one, then \<open>license\<close>, each on a line of its own after eight
  spaces: the loop stores \<open>homepage\<close> before \<open>license\<close> is stored after the loop.
\<close>

theorem json_record_field_order:
  assumes "scan_licenses freeze pip_show = Inr final"
    and "dict_get final package_name = Some info"
  shows \<open>\<exists>v l before after.
     (info = [(''version'', v), (''license'', l)] \<and>
      generate_report ''json'' final =
        before @ ''\<newline>    '' @ encode_string package_name
          @ '': {\<newline>        "version": '' @ encode_string v
          @ '',\<newline>        "license": '' @ encode_string l @ ''\<newline>    }'' @ after) \<or>
     (\<exists>h. info = [(''version'', v), (''homepage'', h), (''license'', l)] \<and>
      generate_report ''json'' final =
        before @ ''\<newline>    '' @ encode_string package_name
          @ '': {\<newline>        "version": '' @ encode_string v
          @ '',\<newline>        "homepage": '' @ encode_string h
          @ '',\<newline>        "license": '' @ encode_string l @ ''\<newline>    }'' @ after)\<close>
proof -
  from assms(2) have "(package_name, info) \<in> set final"
    by (auto simp: dict_get_def dest: map_of_SomeD)
  from json_report_mem [OF this] obtain before after
    where r: "generate_report ''json'' final =
                before @ ''\<newline>    '' @ json_item (package_name, info) @ after"
    by (auto simp: indent_text)
  from scan_licenses_shape [OF assms] obtain v l
    where "info = [(''version'', v), (''license'', l)] \<or>
           (\<exists>h. info = [(''version'', v), (''homepage'', h), (''license'', l)])"
    by blast
  then show ?thesis
  proof (elim disjE exE)
    assume i: "info = [(''version'', v), (''license'', l)]"
    from r show ?thesis
      unfolding i json_item_two by (intro exI disjI1 conjI) (rule refl, simp)
  next
    fix h
    assume i: "info = [(''version'', v), (''homepage'', h), (''license'', l)]"
    from r show ?thesis
      unfolding i json_item_three by (intro exI disjI2 conjI) (rule refl, simp)
  qed
qed


theorem json_record_field_order_witness:
  \<open>scan_licenses (Completed ''beta==2.3'') (\<lambda>p. Completed ''Home-page: http://b.example'') =
     Inr [(''beta'', [(''version'', ''2.3''), (''homepage'', ''http://b.example''),
                      (''license'', ''UNKNOWN'')])] \<and>
   (\<exists>before after.
      generate_report ''json''
        [(''beta'', [(''version'', ''2.3''), (''homepage'', ''http://b.example''),
                     (''license'', ''UNKNOWN'')])] =
        before @ ''\<newline>    "beta": {\<newline>        "version": "2.3",\<newline>        "homepage": "http://b.example",\<newline>        "license": "UNKNOWN"\<newline>    }'' @ after)\<close>
proof -
  let ?show = "\<lambda>p :: string. Completed ''Home-page: http://b.example''"
  let ?info = "[(''version'', ''2.3''), (''homepage'', ''http://b.example''),
                (''license'', ''UNKNOWN'')]"
  have s: "scan_licenses (Completed ''beta==2.3'') ?show = Inr [(''beta'', ?info)]"
    by code_simp
  have g: "dict_get [(''beta'', ?info)] ''beta'' = Some ?info"
    by (simp add: dict_get_def)
  have e: \<open>encode_string ''beta'' = ''"beta"''\<close>
    \<open>encode_string ''2.3'' = ''"2.3"''\<close>
    \<open>encode_string ''http://b.example'' = ''"http://b.example"''\<close>
    \<open>encode_string ''UNKNOWN'' = ''"UNKNOWN"''\<close>
    by code_simp+
  from json_record_field_order [OF s g] obtain before after
    where "generate_report ''json'' [(''beta'', ?info)] =
        before @ ''\<newline>    '' @ encode_string ''beta''
          @ '': {'' @ ''\<newline>        '' @ encode_string ''version'' @ '': '' @ encode_string ''2.3''
          @ '','' @ ''\<newline>        '' @ encode_string ''homepage'' @ '': ''
          @ encode_string ''http://b.example''
          @ '','' @ ''\<newline>        '' @ encode_string ''license'' @ '': ''
          @ encode_string ''UNKNOWN'' @ ''\<newline>    }'' @ after"
    by (auto simp: field_text)
  then have "\<exists>before after. generate_report ''json'' [(''beta'', ?info)] =
        before @ ''\<newline>    '' @ encode_string ''beta''
          @ '': {'' @ ''\<newline>        '' @ encode_string ''version'' @ '': '' @ encode_string ''2.3''
          @ '','' @ ''\<newline>        '' @ encode_string ''homepage'' @ '': ''
          @ encode_string ''http://b.example''
          @ '','' @ ''\<newline>        '' @ encode_string ''license'' @ '': ''
          @ encode_string ''UNKNOWN'' @ ''\<newline>    }'' @ after"
    by blast
  with s show ?thesis by (simp add: e field_text)
qed

text \<open>
  Claim C7 as stated fails: with the \<open>Home-page\<close> line before the \<open>License\<close> line, as
  \<open>pip show\<close> prints them, the record is serialized with \<open>homepage\<close> before \<open>license\<close>.
\<close>

theorem json_homepage_precedes_license:
  \<open>scan_licenses (Completed ''alpha==1.0'')
     (\<lambda>p. Completed ''Name: alpha\<newline>Home-page: http://a.example\<newline>License: MIT\<newline>'') =
     Inr [(''alpha'', [(''version'', ''1.0''), (''homepage'', ''http://a.example''),
                       (''license'', ''MIT'')])] \<and>
   generate_report ''json''
     [(''alpha'', [(''version'', ''1.0''), (''homepage'', ''http://a.example''),
                   (''license'', ''MIT'')])] =
     ''{\<newline>    "alpha": {\<newline>        "version": "1.0",\<newline>        "homepage": "http://a.example",\<newline>        "license": "MIT"\<newline>    }\<newline>}''\<close>
  by code_simp

subsection \<open>The scenario of the specification\<close>

text \<open>
  The run of the scenario: enumeration prints \<open>alpha==1.0\<close> and \<open>beta==2.3\<close>, the
  metadata of \<open>alpha\<close> has its \<open>License\<close> line before its \<open>Home-page\<close> line, and the
  metadata command of \<open>beta\<close> fails.  The loop stops reading at the \<open>License\<close> line, so
  the scan leaves \<open>alpha\<close> with version \<open>1.0\<close> and license \<open>MIT\<close> and \<open>beta\<close> with
  version \<open>2.3\<close> and license \<open>UNKNOWN\<close>, and that is the JSON report printed with exit
  status 0.
\<close>

theorem scenario_report:
  assumes "pip_show ''alpha'' = Completed ''License: MIT\<newline>Home-page: http://a.example\<newline>''"
    and "pip_show ''beta'' = NonZeroExit"
  shows \<open>scan_licenses (Completed ''alpha==1.0\<newline>beta==2.3\<newline>'') pip_show =
           Inr [(''alpha'', [(''version'', ''1.0''), (''license'', ''MIT'')]),
                (''beta'', [(''version'', ''2.3''), (''license'', ''UNKNOWN'')])] \<and>
         main True ''json'' (Completed ''alpha==1.0\<newline>beta==2.3\<newline>'') pip_show =
           (0, Some ''{\<newline>    "alpha": {\<newline>        "version": "1.0",\<newline>        "license": "MIT"\<newline>    },\<newline>    "beta": {\<newline>        "version": "2.3",\<newline>        "license": "UNKNOWN"\<newline>    }\<newline>}\<newline>'')\<close>
proof -
  let ?freeze = "Completed ''alpha==1.0\<newline>beta==2.3\<newline>''"
  let ?d0 = "[(''alpha'', [(''version'', ''1.0'')]), (''beta'', [(''version'', ''2.3'')])]"
  let ?d1 = "[(''alpha'', [(''version'', ''1.0''), (''license'', ''MIT'')]),
              (''beta'', [(''version'', ''2.3'')])]"
  let ?d2 = "[(''alpha'', [(''version'', ''1.0''), (''license'', ''MIT'')]),
              (''beta'', [(''version'', ''2.3''), (''license'', ''UNKNOWN'')])]"
  have g: "get_dependencies ?freeze [] = Inr ?d0" by code_simp
  have r1: "resolved (Completed ''License: MIT\<newline>Home-page: http://a.example\<newline>'')
              [(''version'', ''1.0'')] = [(''version'', ''1.0''), (''license'', ''MIT'')]"
    by code_simp
  have r2: "resolved NonZeroExit [(''version'', ''2.3'')] =
              [(''version'', ''2.3''), (''license'', ''UNKNOWN'')]"
    by code_simp
  have a: "get_license_info pip_show ''alpha'' ?d0 = Inr ?d1"
    using get_license_info_closed [of ?d0 "''alpha''" "[(''version'', ''1.0'')]" pip_show]
    by (simp add: assms r1)
  have b: "get_license_info pip_show ''beta'' ?d1 = Inr ?d2"
    using get_license_info_closed [of ?d1 "''beta''" "[(''version'', ''2.3'')]" pip_show]
    by (simp add: assms r2)
  have s: "scan_licenses ?freeze pip_show = Inr ?d2"
    by (simp add: scan_licenses_def g keys_def a b)
  have j: \<open>generate_report ''json'' ?d2 =
      ''{\<newline>    "alpha": {\<newline>        "version": "1.0",\<newline>        "license": "MIT"\<newline>    },\<newline>    "beta": {\<newline>        "version": "2.3",\<newline>        "license": "UNKNOWN"\<newline>    }\<newline>}''\<close>
    by code_simp
  show ?thesis
    by (simp add: main_def s j)
qed

theorem scenario_report_witness:
  \<open>main True ''json'' (Completed ''alpha==1.0\<newline>beta==2.3\<newline>'')
     (\<lambda>p. if p = ''alpha'' then Completed ''License: MIT\<newline>Home-page: http://a.example\<newline>''
          else NonZeroExit) =
     (0, Some ''{\<newline>    "alpha": {\<newline>        "version": "1.0",\<newline>        "license": "MIT"\<newline>    },\<newline>    "beta": {\<newline>        "version": "2.3",\<newline>        "license": "UNKNOWN"\<newline>    }\<newline>}\<newline>'')\<close>
proof -
  let ?show = "\<lambda>p. if p = ''alpha''
      then Completed ''License: MIT\<newline>Home-page: http://a.example\<newline>'' else NonZeroExit"
  have a: "?show ''alpha'' = Completed ''License: MIT\<newline>Home-page: http://a.example\<newline>''"
    by simp
  have b: "?show ''beta'' = NonZeroExit" by simp
  from scenario_report [of ?show, OF a b] show ?thesis by blast
qed

text \<open>
  With the two lines of the metadata of \<open>alpha\<close> in the other order, \<open>Home-page\<close> first,
  the same loop does store the home page.
\<close>

lemma scenario_homepage_first_is_recorded:
  "scan_licenses (Completed ''alpha==1.0\<newline>beta==2.3\<newline>'')
     (\<lambda>p. if p = ''alpha'' then Completed ''Home-page: http://a.example\<newline>License: MIT\<newline>''
          else NonZeroExit) =
     Inr [(''alpha'', [(''version'', ''1.0''), (''homepage'', ''http://a.example''),
                       (''license'', ''MIT'')]),
          (''beta'', [(''version'', ''2.3''), (''license'', ''UNKNOWN'')])]"
  by code_simp

text \<open>
  Claim C1.  The claim has \<open>alpha\<close> end with the home page \<open>http://a.example\<close>.  The code
  does not do that: in the run of the claim the \<open>break\<close> at the \<open>License\<close> line comes before
  the \<open>Home-page\<close> line is read, and the record of \<open>alpha\<close> has no \<open>homepage\<close> field,
  although the loop has a branch that stores one.
\<close>

theorem scenario_alpha_has_no_homepage:
  "scan_licenses (Completed ''alpha==1.0\<newline>beta==2.3\<newline>'')
     (\<lambda>p. if p = ''alpha'' then Completed ''License: MIT\<newline>Home-page: http://a.example\<newline>''
          else NonZeroExit) =
     Inr [(''alpha'', [(''version'', ''1.0''), (''license'', ''MIT'')]),
          (''beta'', [(''version'', ''2.3''), (''license'', ''UNKNOWN'')])] \<and>
   dict_get [(''version'', ''1.0''), (''license'', ''MIT'')] ''homepage'' = None \<and>
   dict_get [(''version'', ''1.0''), (''license'', ''MIT'')] ''homepage'' \<noteq> Some ''http://a.example''"
  by code_simp

end
